theory Spec2Isabelle
  imports Main "HOL-Library.AList" "HOL-Library.Multiset"
begin

section \<open>Data model of the dependency-graph visualizer (src/project2/depgraph3.py)\<close>

text \<open>
  A dependency is the dictionary with the keys \<open>groupId\<close>, \<open>artifactId\<close> and
  \<open>version\<close> that \<open>_parse_dependencies_from_pom\<close> and \<open>_get_test_dependencies\<close> build.
  Strings are byte strings (UTF-8). The core reads the three fields only through
  f-strings, where a \<open>None\<close> text of an empty XML element is printed as the string
  \<open>None\<close>, so a field is modelled as a string.
\<close>

record dependency =
  groupId :: string
  artifactId :: string
  version :: string

datatype repo_mode = Remote | Test

text \<open>The entries of \<open>self.config\<close> that the core reads.\<close>

record config =
  package_name :: string
  max_depth :: int
  filter_substring :: "string option"
  mode :: repo_mode

text \<open>
  \<open>self.dependency_graph\<close> is a Python dict: its keys are kept in insertion order, and
  an assignment to a key that is present replaces the value in place. This is an
  association list written with \<open>AList.update\<close> and read with \<open>map_of\<close>.
\<close>

type_synonym graph = "(string \<times> dependency list) list"

text \<open>
  The remote source: \<open>_download_pom_file\<close> followed by \<open>_parse_dependencies_from_pom\<close>,
  for a group id and an artifact id. Both raise \<open>Exception\<close> on a transport or parse
  failure; the failure is the left summand.
\<close>

datatype fetch_failure = DownloadFailed | PomParseFailed

type_synonym pom_source = "string \<Rightarrow> string \<Rightarrow> fetch_failure + dependency list"

section \<open>String helpers of the Python runtime\<close>

text \<open>\<open>s.split(sep)\<close> for a separator of one character.\<close>

fun split_on :: "char \<Rightarrow> string \<Rightarrow> string list" where
  "split_on sep [] = [[]]"
| "split_on sep (c # cs) =
     (if c = sep then [] # split_on sep cs
      else (case split_on sep cs of
              p # ps \<Rightarrow> (c # p) # ps
            | [] \<Rightarrow> [[c]]))"

text \<open>
  \<open>s.lower()\<close>. Python lower-cases every cased code point; this function lower-cases
  the ASCII letters and leaves every other byte as it is, so the two agree on ASCII
  text only. No proof below unfolds this definition: what is proved of the filter
  holds for any lower-casing map.
\<close>

definition lower_char :: "char \<Rightarrow> char" where
  "lower_char c =
     (let n = (of_char c :: nat) in if 65 \<le> n \<and> n \<le> 90 then char_of (n + 32) else c)"

definition lower :: "string \<Rightarrow> string" where
  "lower s = map lower_char s"

text \<open>\<open>sub in s\<close> on strings: \<open>sub\<close> occurs in \<open>s\<close> as a contiguous block.\<close>

fun starts_with :: "string \<Rightarrow> string \<Rightarrow> bool" where
  "starts_with [] s = True"
| "starts_with (c # cs) [] = False"
| "starts_with (c # cs) (d # ds) = (c = d \<and> starts_with cs ds)"

fun contains :: "string \<Rightarrow> string \<Rightarrow> bool" where
  "contains sub [] = (sub = [])"
| "contains sub (c # cs) = (starts_with sub (c # cs) \<or> contains sub cs)"

section \<open>The filter\<close>

definition dep_key :: "dependency \<Rightarrow> string" where
  "dep_key dep = groupId dep @ '':'' @ artifactId dep"

definition dep_str :: "dependency \<Rightarrow> string" where
  "dep_str dep = groupId dep @ '':'' @ artifactId dep @ '':'' @ version dep"

text \<open>
  \<open>_apply_filter\<close>: \<open>not self.config['filter_substring']\<close> holds for \<open>None\<close> and for the
  empty string; otherwise the loop appends the matching records to \<open>filtered\<close>.
\<close>

definition apply_filter :: "config \<Rightarrow> dependency list \<Rightarrow> dependency list" where
  "apply_filter cfg dependencies =
     (case filter_substring cfg of
        None \<Rightarrow> dependencies
      | Some s \<Rightarrow>
          if s = [] then dependencies
          else fold (\<lambda>dep filtered.
                       if contains (lower s) (lower (dep_str dep)) then filtered @ [dep]
                       else filtered)
                    dependencies [])"

section \<open>Fetching the direct dependencies\<close>

definition mk_dep :: "string \<Rightarrow> string \<Rightarrow> string \<Rightarrow> dependency" where
  "mk_dep g a v = \<lparr>groupId = g, artifactId = a, version = v\<rparr>"

definition test_default :: "dependency list" where
  "test_default =
     [mk_dep ''junit'' ''junit'' ''4.13.2'',
      mk_dep ''org.slf4j'' ''slf4j-api'' ''1.7.36'']"

definition test_dependencies :: graph where
  "test_dependencies =
     [(''junit:junit'',
         [mk_dep ''org.hamcrest'' ''hamcrest-core'' ''2.2'']),
      (''org.springframework:spring-core'',
         [mk_dep ''commons-logging'' ''commons-logging'' ''1.2'',
          mk_dep ''org.springframework'' ''spring-jcl'' ''5.3.23'']),
      (''org.springframework:spring-jcl'',
         [mk_dep ''org.slf4j'' ''slf4j-api'' ''1.7.36'']),
      (''org.hamcrest:hamcrest-core'',
         [mk_dep ''org.hamcrest'' ''hamcrest-library'' ''2.2'']),
      (''org.hamcrest:hamcrest-library'',
         [mk_dep ''junit'' ''junit'' ''4.13.2'']),
      (''com.example:my-app'',
         [mk_dep ''junit'' ''junit'' ''4.13.2'',
          mk_dep ''org.springframework'' ''spring-core'' ''5.3.23'',
          mk_dep ''com.google.guava'' ''guava'' ''31.1-jre'']),
      (''com.google.guava:guava'',
         [mk_dep ''com.google.guava'' ''failureaccess'' ''1.0.1'',
          mk_dep ''com.google.guava'' ''listenablefuture''
            ''9999.0-empty-to-avoid-conflict-with-guava'']),
      (''default'', test_default)]"

definition get_test_dependencies :: "string \<Rightarrow> string \<Rightarrow> dependency list" where
  "get_test_dependencies group_id artifact_id =
     (case map_of test_dependencies (group_id @ '':'' @ artifact_id) of
        Some deps \<Rightarrow> deps
      | None \<Rightarrow> test_default)"

text \<open>
  \<open>get_package_dependencies\<close>. The second component of the result is a ghost value: the
  coordinates for which this call consulted the source (the remote repository or the
  test table). It is empty on the two early returns and holds the package otherwise.
  The \<open>except Exception\<close> of the remote branch turns every failure into the empty list.
\<close>

definition get_package_dependencies ::
  "config \<Rightarrow> pom_source \<Rightarrow> string \<Rightarrow> int \<Rightarrow> dependency list \<times> string list" where
  "get_package_dependencies cfg src package current_depth =
     (if current_depth \<ge> max_depth cfg then ([], [])
      else (case split_on (CHR '':'') package of
              [group_id, artifact_id] \<Rightarrow>
                (case mode cfg of
                   Remote \<Rightarrow>
                     (case src group_id artifact_id of
                        Inl e \<Rightarrow> ([], [package])
                      | Inr dependencies \<Rightarrow> (dependencies, [package]))
                 | Test \<Rightarrow> (get_test_dependencies group_id artifact_id, [package]))
            | _ \<Rightarrow> ([], [])))"

section \<open>The breadth-first traversal\<close>

text \<open>
  The state of the loop of \<open>build_dependency_graph\<close>: the deque, the graph and the
  visited set. \<open>fetch_log\<close> and \<open>expanded\<close> are ghost fields, written and never read
  by the loop: the coordinates sent to the source, and the (package, depth) pairs that
  passed the visited check, both in order.
\<close>

record bfs_state =
  queue :: "(string \<times> int) list"
  dependency_graph :: graph
  visited_packages :: "string set"
  fetch_log :: "string list"
  expanded :: "(string \<times> int) list"

text \<open>The body of the loop after \<open>popleft\<close> and the visited check.\<close>

definition visit :: "config \<Rightarrow> pom_source \<Rightarrow> string \<Rightarrow> int \<Rightarrow> bfs_state \<Rightarrow> bfs_state" where
  "visit cfg src current_package depth st =
     (let visited' = insert current_package (visited_packages st);
          fetched = get_package_dependencies cfg src current_package depth;
          dependencies = apply_filter cfg (fst fetched);
          graph' = AList.update current_package dependencies (dependency_graph st);
          queue' =
            (if depth + 1 < max_depth cfg
             then queue st @
                  map (\<lambda>dep. (dep_key dep, depth + 1))
                      (filter (\<lambda>dep. dep_key dep \<notin> visited') dependencies)
             else queue st)
      in \<lparr>queue = queue', dependency_graph = graph', visited_packages = visited',
          fetch_log = fetch_log st @ snd fetched,
          expanded = expanded st @ [(current_package, depth)]\<rparr>)"

text \<open>One iteration of \<open>while queue\<close> on a non-empty deque.\<close>

definition bfs_step :: "config \<Rightarrow> pom_source \<Rightarrow> bfs_state \<Rightarrow> bfs_state" where
  "bfs_step cfg src st =
     (case queue st of
        [] \<Rightarrow> st
      | (current_package, depth) # rest \<Rightarrow>
          if current_package \<in> visited_packages st then st\<lparr>queue := rest\<rparr>
          else visit cfg src current_package depth (st\<lparr>queue := rest\<rparr>))"

definition queue_weight :: "config \<Rightarrow> bfs_state \<Rightarrow> nat multiset" where
  "queue_weight cfg st = mset (map (\<lambda>(c, d). nat (max_depth cfg - d)) (queue st))"

lemma queue_weight_step:
  assumes "queue st \<noteq> []"
  shows "(queue_weight cfg (bfs_step cfg src st), queue_weight cfg st) \<in> mult less_than"
proof -
  obtain p d rest where q: "queue st = (p, d) # rest"
    using assms by (cases "queue st") auto
  let ?I = "mset (map (\<lambda>(c, d). nat (max_depth cfg - d)) rest)"
  let ?J = "{#nat (max_depth cfg - d)#}"
  have now: "queue_weight cfg st = ?I + ?J"
    by (simp add: queue_weight_def q)
  have "\<exists>K. queue_weight cfg (bfs_step cfg src st) = ?I + K \<and>
            (\<forall>k \<in> set_mset K. \<exists>j \<in> set_mset ?J. (k, j) \<in> less_than)"
  proof (cases "p \<in> visited_packages st \<or> \<not> d + 1 < max_depth cfg")
    case True
    then have "queue_weight cfg (bfs_step cfg src st) = ?I + {#}"
      by (auto simp: queue_weight_def bfs_step_def visit_def q Let_def)
    then show ?thesis by (intro exI [of _ "{#}"]) simp
  next
    case False
    let ?ds = "filter (\<lambda>dep. dep_key dep \<notin> insert p (visited_packages st))
                 (apply_filter cfg (fst (get_package_dependencies cfg src p d)))"
    let ?K = "mset (map (\<lambda>dep. nat (max_depth cfg - (d + 1))) ?ds)"
    from False have "queue_weight cfg (bfs_step cfg src st) = ?I + ?K"
      by (simp add: queue_weight_def bfs_step_def visit_def q Let_def comp_def)
    moreover from False have "\<forall>k \<in> set_mset ?K. \<exists>j \<in> set_mset ?J. (k, j) \<in> less_than"
      by auto
    ultimately show ?thesis by blast
  qed
  then obtain K where K: "queue_weight cfg (bfs_step cfg src st) = ?I + K"
    and lt: "\<forall>k \<in> set_mset K. \<exists>j \<in> set_mset ?J. (k, j) \<in> less_than"
    by blast
  have "(?I + K, ?I + ?J) \<in> mult less_than"
    by (rule one_step_implies_mult) (use lt in auto)
  then show ?thesis by (simp only: K now)
qed

function bfs_loop :: "config \<Rightarrow> pom_source \<Rightarrow> bfs_state \<Rightarrow> bfs_state" where
  "bfs_loop cfg src st =
     (if queue st = [] then st else bfs_loop cfg src (bfs_step cfg src st))"
  by pat_completeness auto
termination
proof (relation "inv_image (mult less_than) (\<lambda>(cfg, src, st). queue_weight cfg st)")
  show "wf (inv_image (mult less_than) (\<lambda>(cfg, src, st). queue_weight cfg st))"
    by (intro wf_inv_image wf_mult wf_less_than)
next
  fix cfg :: config and src :: pom_source and st :: bfs_state
  assume "queue st \<noteq> []"
  then show "((cfg, src, bfs_step cfg src st), (cfg, src, st))
      \<in> inv_image (mult less_than) (\<lambda>(cfg, src, st). queue_weight cfg st)"
    by (simp add: queue_weight_step)
qed

declare bfs_loop.simps [simp del]

definition initial_state :: "config \<Rightarrow> bfs_state" where
  "initial_state cfg =
     \<lparr>queue = [(package_name cfg, 0)], dependency_graph = [], visited_packages = {},
      fetch_log = [], expanded = []\<rparr>"

text \<open>
  \<open>build_dependency_graph\<close> resets the graph and the visited set, seeds the deque with
  the root at depth 0 and runs the loop; the final state holds the graph.
\<close>

definition build_dependency_graph :: "config \<Rightarrow> pom_source \<Rightarrow> bfs_state" where
  "build_dependency_graph cfg src = bfs_loop cfg src (initial_state cfg)"

text \<open>
  What the caller of \<open>build_dependency_graph\<close> observes: a normal return, with the
  graph left in \<open>self.dependency_graph\<close>, or an exception. The body has no
  \<open>raise\<close>, and the one call that can raise (the remote download and parse) sits
  inside the \<open>try\<close> of \<open>get_package_dependencies\<close>, so every outcome is a return.
\<close>

datatype build_error = InvalidCoordinateError

definition build_outcome :: "config \<Rightarrow> pom_source \<Rightarrow> build_error + graph" where
  "build_outcome cfg src = Inr (dependency_graph (build_dependency_graph cfg src))"

section \<open>The ASCII tree\<close>

text \<open>
  \<open>_print_tree_node\<close> prints three kinds of lines. The model returns them as values,
  in print order, and \<open>render_line\<close> gives the text of each.
\<close>

datatype tree_line =
  Node int string
| Cyclic int string
| DepthLimited int bool string

definition glyph_last :: string where
  "glyph_last =
     [CHR 0xE2, CHR 0x94, CHR 0x94, CHR 0xE2, CHR 0x94, CHR 0x80,
      CHR 0xE2, CHR 0x94, CHR 0x80] @ '' ''"

definition glyph_mid :: string where
  "glyph_mid =
     [CHR 0xE2, CHR 0x94, CHR 0x9C, CHR 0xE2, CHR 0x94, CHR 0x80,
      CHR 0xE2, CHR 0x94, CHR 0x80] @ '' ''"

definition cyclic_suffix :: string where
  "cyclic_suffix =
     '' ('' @ [CHR 0xD1, CHR 0x86, CHR 0xD0, CHR 0xB8, CHR 0xD0, CHR 0xBA, CHR 0xD0, CHR 0xBB,
       CHR 0xD0, CHR 0xB8, CHR 0xD1, CHR 0x87, CHR 0xD0, CHR 0xB5, CHR 0xD1, CHR 0x81,
       CHR 0xD0, CHR 0xBA, CHR 0xD0, CHR 0xB0, CHR 0xD1, CHR 0x8F] @ '' '' @
      [CHR 0xD0, CHR 0xB7, CHR 0xD0, CHR 0xB0, CHR 0xD0, CHR 0xB2, CHR 0xD0, CHR 0xB8,
       CHR 0xD1, CHR 0x81, CHR 0xD0, CHR 0xB8, CHR 0xD0, CHR 0xBC, CHR 0xD0, CHR 0xBE,
       CHR 0xD1, CHR 0x81, CHR 0xD1, CHR 0x82, CHR 0xD1, CHR 0x8C] @ '')''"

definition limited_suffix :: string where
  "limited_suffix =
     '' ('' @ [CHR 0xD0, CHR 0xB3, CHR 0xD0, CHR 0xBB, CHR 0xD1, CHR 0x83, CHR 0xD0, CHR 0xB1,
       CHR 0xD0, CHR 0xB8, CHR 0xD0, CHR 0xBD, CHR 0xD0, CHR 0xB0] @ '' '' @
      [CHR 0xD0, CHR 0xBE, CHR 0xD0, CHR 0xB3, CHR 0xD1, CHR 0x80, CHR 0xD0, CHR 0xB0,
       CHR 0xD0, CHR 0xBD, CHR 0xD0, CHR 0xB8, CHR 0xD1, CHR 0x87, CHR 0xD0, CHR 0xB5,
       CHR 0xD0, CHR 0xBD, CHR 0xD0, CHR 0xB0] @ '')''"

text \<open>\<open>"  " * level\<close>; a negative count gives the empty string.\<close>

definition indent :: "int \<Rightarrow> string" where
  "indent level = concat (replicate (nat level) ''  '')"

text \<open>
  The glyph of each line. A node printed by a recursive call takes the connector that
  the call computes itself: the last-sibling glyph when \<open>level > 0\<close>, nothing at the
  root. The connector that the caller's loop computes from \<open>is_last\<close> is used by the
  depth-limited line only.
\<close>

fun line_glyph :: "tree_line \<Rightarrow> string" where
  "line_glyph (Node level package) = (if level > 0 then glyph_last else [])"
| "line_glyph (Cyclic level package) = glyph_last"
| "line_glyph (DepthLimited level is_last package) = (if is_last then glyph_last else glyph_mid)"

fun render_line :: "tree_line \<Rightarrow> string" where
  "render_line (Node level package) =
     indent level @ line_glyph (Node level package) @ package"
| "render_line (Cyclic level package) =
     indent level @ line_glyph (Cyclic level package) @ package @ cyclic_suffix"
| "render_line (DepthLimited level is_last package) =
     indent level @ line_glyph (DepthLimited level is_last package) @ package @ limited_suffix"

text \<open>
  \<open>_print_tree_node\<close>. Every recursive call gets \<open>visited.copy()\<close>, taken after
  \<open>visited.add(package)\<close>, so the callee's \<open>add\<close> and \<open>remove\<close> never reach the caller's
  set: the set is passed by value. The closing \<open>visited.remove(package)\<close> acts on a set
  that nobody reads afterwards.
\<close>

function (domintros) print_tree_node ::
  "config \<Rightarrow> graph \<Rightarrow> string \<Rightarrow> int \<Rightarrow> string set \<Rightarrow> tree_line list" where
  "print_tree_node cfg g package level visited =
     (if package \<in> visited then [Cyclic level package]
      else Node level package #
        (case map_of g package of
           None \<Rightarrow> []
         | Some dependencies \<Rightarrow>
             concat (map (\<lambda>idep.
                 if level + 1 < max_depth cfg
                 then print_tree_node cfg g (dep_key (snd idep)) (level + 1)
                        (insert package visited)
                 else [DepthLimited (level + 1)
                         (int (fst idep) = int (length dependencies) - 1)
                         (dep_key (snd idep))])
               (enumerate 0 dependencies))))"
  by pat_completeness auto
termination
  by (relation "measure (\<lambda>(cfg, g, package, level, visited). nat (max_depth cfg - level))") auto

declare print_tree_node.simps [simp del]

text \<open>
  \<open>print_ascii_tree\<close>, as the list of the strings given to \<open>print\<close>: the message for
  an empty graph and nothing else, or the title (it starts with a line break), the rule
  of 50 \<open>=\<close> and the lines of the root at level 0 with \<open>set()\<close>.
\<close>

definition empty_graph_message :: string where
  "empty_graph_message =
     [CHR 0xD0, CHR 0x93, CHR 0xD1, CHR 0x80, CHR 0xD0, CHR 0xB0, CHR 0xD1, CHR 0x84] @ '' '' @
     [CHR 0xD0, CHR 0xB7, CHR 0xD0, CHR 0xB0, CHR 0xD0, CHR 0xB2, CHR 0xD0, CHR 0xB8,
      CHR 0xD1, CHR 0x81, CHR 0xD0, CHR 0xB8, CHR 0xD0, CHR 0xBC, CHR 0xD0, CHR 0xBE,
      CHR 0xD1, CHR 0x81, CHR 0xD1, CHR 0x82, CHR 0xD0, CHR 0xB5, CHR 0xD0, CHR 0xB9] @ '' '' @
     [CHR 0xD0, CHR 0xBF, CHR 0xD1, CHR 0x83, CHR 0xD1, CHR 0x81, CHR 0xD1, CHR 0x82]"

definition tree_title :: string where
  "tree_title =
     [CHR 0x0A, CHR 0xD0, CHR 0x94, CHR 0xD0, CHR 0xB5, CHR 0xD1, CHR 0x80, CHR 0xD0, CHR 0xB5,
      CHR 0xD0, CHR 0xB2, CHR 0xD0, CHR 0xBE] @ '' '' @
     [CHR 0xD0, CHR 0xB7, CHR 0xD0, CHR 0xB0, CHR 0xD0, CHR 0xB2, CHR 0xD0, CHR 0xB8,
      CHR 0xD1, CHR 0x81, CHR 0xD0, CHR 0xB8, CHR 0xD0, CHR 0xBC, CHR 0xD0, CHR 0xBE,
      CHR 0xD1, CHR 0x81, CHR 0xD1, CHR 0x82, CHR 0xD0, CHR 0xB5, CHR 0xD0, CHR 0xB9] @ '' '' @
     [CHR 0xD0, CHR 0xB4, CHR 0xD0, CHR 0xBB, CHR 0xD1, CHR 0x8F] @ '': ''"

definition print_ascii_tree :: "config \<Rightarrow> graph \<Rightarrow> string list" where
  "print_ascii_tree cfg g =
     (if g = [] then [empty_graph_message]
      else [tree_title @ package_name cfg, replicate 50 (CHR ''='')] @
           map render_line (print_tree_node cfg g (package_name cfg) 0 {}))"

section \<open>The D2 diagram\<close>

definition d2_header :: string where
  "d2_header =
     ''# '' @ [CHR 0xD0, CHR 0x93, CHR 0xD1, CHR 0x80, CHR 0xD0, CHR 0xB0, CHR 0xD1, CHR 0x84] @
     '' '' @ [CHR 0xD0, CHR 0xB7, CHR 0xD0, CHR 0xB0, CHR 0xD0, CHR 0xB2, CHR 0xD0, CHR 0xB8,
       CHR 0xD1, CHR 0x81, CHR 0xD0, CHR 0xB8, CHR 0xD0, CHR 0xBC, CHR 0xD0, CHR 0xBE,
       CHR 0xD1, CHR 0x81, CHR 0xD1, CHR 0x82, CHR 0xD0, CHR 0xB5, CHR 0xD0, CHR 0xB9] @
     '' Maven'' @ [CHR 0x0A, CHR 0x0A] @
     ''direction: right'' @ [CHR 0x0A] @
     ''classes: {'' @ [CHR 0x0A] @ ''  style: {'' @ [CHR 0x0A] @
     ''    stroke: green'' @ [CHR 0x0A] @ ''    fill: lightgreen'' @ [CHR 0x0A] @
     ''  }'' @ [CHR 0x0A] @ ''}'' @ [CHR 0x0A, CHR 0x0A]"

definition node_decl :: "string \<Rightarrow> string" where
  "node_decl package = [CHR 0x22] @ package @ [CHR 0x22, CHR 0x0A]"

definition edge_stmt :: "string \<Rightarrow> string \<Rightarrow> string" where
  "edge_stmt package dep_key' =
     [CHR 0x22] @ package @ [CHR 0x22] @ '' -> '' @ [CHR 0x22] @ dep_key' @ [CHR 0x22, CHR 0x0A]"

text \<open>
  \<open>generate_d2_diagram\<close>: the two loops append to \<open>d2_content\<close>, the first over the keys
  of the dict, the second over its items with an inner loop over each list.
\<close>

definition generate_d2_diagram :: "graph \<Rightarrow> string" where
  "generate_d2_diagram g =
     (let d2_content = d2_header;
          d2_content = fold (\<lambda>package acc. acc @ node_decl package) (map fst g) d2_content;
          d2_content =
            fold (\<lambda>(package, dependencies) acc.
                    fold (\<lambda>dep acc'. acc' @ edge_stmt package (dep_key dep)) dependencies acc)
                 g d2_content
      in d2_content)"

section \<open>Notions of the specification and the scenarios\<close>

text \<open>The stored adjacency pairs (parent, child key), in the order of the graph.\<close>

definition edge_pairs :: "graph \<Rightarrow> (string \<times> string) list" where
  "edge_pairs g =
     concat (map (\<lambda>(package, dependencies).
                    map (\<lambda>dep. (package, dep_key dep)) dependencies) g)"


text \<open>A coordinate in the sense of the specification: two non-empty parts around one colon.\<close>

definition parses_as_coordinate :: "string \<Rightarrow> bool" where
  "parses_as_coordinate s =
     (case split_on (CHR '':'') s of [g, a] \<Rightarrow> g \<noteq> [] \<and> a \<noteq> [] | _ \<Rightarrow> False)"

text \<open>The states that the loop of a build passes through.\<close>

inductive bfs_reachable :: "config \<Rightarrow> pom_source \<Rightarrow> bfs_state \<Rightarrow> bool"
  for cfg :: config and src :: pom_source where
  start: "bfs_reachable cfg src (initial_state cfg)"
| iterate: "bfs_reachable cfg src st \<Longrightarrow> queue st \<noteq> [] \<Longrightarrow>
            bfs_reachable cfg src (bfs_step cfg src st)"

text \<open>The loop invariants.\<close>

definition keys_inv :: "bfs_state \<Rightarrow> bool" where
  "keys_inv st \<longleftrightarrow>
     map fst (dependency_graph st) = map fst (expanded st) \<and>
     set (map fst (expanded st)) = visited_packages st \<and>
     distinct (map fst (expanded st)) \<and>
     distinct (fetch_log st) \<and> set (fetch_log st) \<subseteq> visited_packages st"

definition stored_inv :: "config \<Rightarrow> pom_source \<Rightarrow> bfs_state \<Rightarrow> bool" where
  "stored_inv cfg src st \<longleftrightarrow>
     (\<forall>(p, d) \<in> set (expanded st).
        map_of (dependency_graph st) p =
          Some (apply_filter cfg (fst (get_package_dependencies cfg src p d))))"

definition origin_inv :: "config \<Rightarrow> bfs_state \<Rightarrow> bool" where
  "origin_inv cfg st \<longleftrightarrow>
     (\<forall>(c, e) \<in> set (queue st) \<union> set (expanded st).
        0 \<le> e \<and>
        ((c, e) = (package_name cfg, 0) \<or>
         (e < max_depth cfg \<and>
          (\<exists>q deps. (q, e - 1) \<in> set (expanded st) \<and>
             map_of (dependency_graph st) q = Some deps \<and> c \<in> dep_key ` set deps))))"

definition traversal_inv :: "config \<Rightarrow> pom_source \<Rightarrow> bfs_state \<Rightarrow> bool" where
  "traversal_inv cfg src st \<longleftrightarrow> keys_inv st \<and> stored_inv cfg src st \<and> origin_inv cfg st"

text \<open>Scenarios A and C: the diamond, as a remote source, with the depth bound left open.\<close>

definition diamond_source :: pom_source where
  "diamond_source group_id artifact_id =
     (if (group_id, artifact_id) = (''a'', ''a'')
        then Inr [mk_dep ''b'' ''b'' ''1.0'', mk_dep ''c'' ''c'' ''1.0'']
      else if (group_id, artifact_id) = (''b'', ''b'') then Inr [mk_dep ''d'' ''d'' ''1.0'']
      else if (group_id, artifact_id) = (''c'', ''c'') then Inr [mk_dep ''d'' ''d'' ''1.0'']
      else if (group_id, artifact_id) = (''d'', ''d'') then Inr []
      else Inl DownloadFailed)"

definition diamond_config :: "int \<Rightarrow> config" where
  "diamond_config n =
     \<lparr>package_name = ''a:a'', max_depth = n, filter_substring = None, mode = Remote\<rparr>"

definition diamond_graph :: graph where
  "diamond_graph =
     [(''a:a'', [mk_dep ''b'' ''b'' ''1.0'', mk_dep ''c'' ''c'' ''1.0'']),
      (''b:b'', [mk_dep ''d'' ''d'' ''1.0'']),
      (''c:c'', [mk_dep ''d'' ''d'' ''1.0'']),
      (''d:d'', [])]"

text \<open>A source whose download of \<open>b:b\<close> fails.\<close>

definition flaky_source :: pom_source where
  "flaky_source group_id artifact_id =
     (if (group_id, artifact_id) = (''a'', ''a'')
        then Inr [mk_dep ''b'' ''b'' ''1.0'', mk_dep ''c'' ''c'' ''1.0'']
      else if (group_id, artifact_id) = (''c'', ''c'') then Inr []
      else Inl DownloadFailed)"

text \<open>Scenario B: the two-node cycle.\<close>

definition cycle_graph :: graph where
  "cycle_graph =
     [(''x:x'', [mk_dep ''y'' ''y'' ''1.0'']), (''y:y'', [mk_dep ''x'' ''x'' ''1.0''])]"

definition cycle_config :: config where
  "cycle_config =
     \<lparr>package_name = ''x:x'', max_depth = 4, filter_substring = None, mode = Remote\<rparr>"


text \<open>A root without a colon.\<close>

definition malformed_root_config :: config where
  "malformed_root_config =
     \<lparr>package_name = ''abc'', max_depth = 3, filter_substring = None, mode = Remote\<rparr>"

text \<open>
  The run \<open>--package org.springframework:spring-core --test-repo --tree --max-depth 2\<close>;
  in test mode the remote source is never called.
\<close>

definition spring_config :: config where
  "spring_config =
     \<lparr>package_name = ''org.springframework:spring-core'', max_depth = 2,
      filter_substring = None, mode = Test\<rparr>"

definition unused_source :: pom_source where
  "unused_source group_id artifact_id = Inl DownloadFailed"



text \<open>
  The lines of a text that ends each line with a line break: the pieces between the
  line breaks, without the empty piece after the last one.
\<close>

definition text_lines :: "string \<Rightarrow> string list" where
  "text_lines s = butlast (split_on (CHR 0x0A) s)"

text \<open>The ten lines of the fixed header of the diagram.\<close>

definition d2_header_lines :: "string list" where
  "d2_header_lines =
     [''# '' @ [CHR 0xD0, CHR 0x93, CHR 0xD1, CHR 0x80, CHR 0xD0, CHR 0xB0, CHR 0xD1, CHR 0x84] @
      '' '' @ [CHR 0xD0, CHR 0xB7, CHR 0xD0, CHR 0xB0, CHR 0xD0, CHR 0xB2, CHR 0xD0, CHR 0xB8,
        CHR 0xD1, CHR 0x81, CHR 0xD0, CHR 0xB8, CHR 0xD0, CHR 0xBC, CHR 0xD0, CHR 0xBE,
        CHR 0xD1, CHR 0x81, CHR 0xD1, CHR 0x82, CHR 0xD0, CHR 0xB5, CHR 0xD0, CHR 0xB9] @
      '' Maven'',
      [],
      ''direction: right'',
      ''classes: {'',
      ''  style: {'',
      ''    stroke: green'',
      ''    fill: lightgreen'',
      ''  }'',
      ''}'',
      []]"

text \<open>Scenario B as a source, and a depth bound of 2 for it.\<close>

definition cycle_source :: pom_source where
  "cycle_source group_id artifact_id =
     (if (group_id, artifact_id) = (''x'', ''x'') then Inr [mk_dep ''y'' ''y'' ''1.0'']
      else if (group_id, artifact_id) = (''y'', ''y'') then Inr [mk_dep ''x'' ''x'' ''1.0'']
      else Inl DownloadFailed)"

definition shallow_cycle_config :: config where
  "shallow_cycle_config =
     \<lparr>package_name = ''x:x'', max_depth = 2, filter_substring = None, mode = Remote\<rparr>"



text \<open>A root whose group id holds a line break; its remote fetch fails.\<close>

definition newline_key :: string where
  "newline_key = ''a'' @ [CHR 0x0A] @ ''b:c''"

definition newline_root_config :: config where
  "newline_root_config =
     \<lparr>package_name = newline_key, max_depth = 3, filter_substring = None, mode = Remote\<rparr>"

section \<open>Auxiliary facts\<close>

subsection \<open>Strings, folds and association lists\<close>




lemma apply_filter_Nil: "apply_filter cfg [] = []"
  by (simp add: apply_filter_def split: option.splits)

lemma fold_append_concat:
  "fold (\<lambda>x acc. acc @ f x) xs acc = acc @ concat (map f xs)"
  by (induction xs arbitrary: acc) auto

lemma fold_edges:
  "fold (\<lambda>(package, dependencies) acc.
            fold (\<lambda>dep acc'. acc' @ edge_stmt package (dep_key dep)) dependencies acc) g acc
   = acc @ concat (map (\<lambda>(p, c). edge_stmt p c) (edge_pairs g))"
proof (induction g arbitrary: acc)
  case Nil
  then show ?case by (simp add: edge_pairs_def)
next
  case (Cons a g)
  obtain p ds where a: "a = (p, ds)" by (cases a)
  have "fold (\<lambda>dep acc'. acc' @ edge_stmt p (dep_key dep)) ds acc
      = acc @ concat (map (\<lambda>dep. edge_stmt p (dep_key dep)) ds)"
    by (rule fold_append_concat)
  then show ?case using Cons.IH
    by (simp add: a edge_pairs_def comp_def)
qed

lemma update_fresh: "k \<notin> fst ` set al \<Longrightarrow> AList.update k v al = al @ [(k, v)]"
  by (induction al) auto

lemma map_of_snoc_fresh:
  "p \<notin> fst ` set al \<Longrightarrow> map_of (al @ [(p, v)]) p = Some v"
  by (induction al) auto

lemma map_of_snoc_old:
  "map_of al q = Some ds \<Longrightarrow> map_of (al @ [(p, v)]) q = Some ds"
  by (induction al) auto

lemma distinct_fst_unique:
  "distinct (map fst xs) \<Longrightarrow> (k, a) \<in> set xs \<Longrightarrow> (k, b) \<in> set xs \<Longrightarrow> a = b"
  by (meson eq_key_imp_eq_value)


subsection \<open>One iteration of the traversal\<close>

lemma bfs_loop_rule:
  assumes "P st" and "\<And>s. P s \<Longrightarrow> queue s \<noteq> [] \<Longrightarrow> P (bfs_step cfg src s)"
  shows "P (bfs_loop cfg src st)"
  using assms
proof (induction cfg src st rule: bfs_loop.induct)
  case (1 cfg src st)
  show ?case
  proof (cases "queue st = []")
    case True
    with "1.prems"(1) show ?thesis by (simp add: bfs_loop.simps)
  next
    case False
    then have "P (bfs_step cfg src st)" using "1.prems" by blast
    then have "P (bfs_loop cfg src (bfs_step cfg src st))"
      using "1.IH" False "1.prems"(2) by blast
    with False show ?thesis by (simp add: bfs_loop.simps)
  qed
qed

lemma bfs_loop_queue_empty: "queue (bfs_loop cfg src st) = []"
  by (induction cfg src st rule: bfs_loop.induct) (simp add: bfs_loop.simps)

lemma bfs_loop_step: "queue st \<noteq> [] \<Longrightarrow> bfs_loop cfg src (bfs_step cfg src st) = bfs_loop cfg src st"
  by (simp add: bfs_loop.simps [of cfg src st])

lemma gpd_calls:
  "snd (get_package_dependencies cfg src p d) = [] \<or> snd (get_package_dependencies cfg src p d) = [p]"
  by (simp add: get_package_dependencies_def split: list.splits repo_mode.splits sum.splits)

lemma gpd_depth_irrelevant:
  "0 \<le> d \<Longrightarrow> d < max_depth cfg \<Longrightarrow>
   get_package_dependencies cfg src p d = get_package_dependencies cfg src p 0"
  by (simp add: get_package_dependencies_def)

lemma gpd_malformed:
  "length (split_on (CHR '':'') p) \<noteq> 2 \<Longrightarrow> get_package_dependencies cfg src p d = ([], [])"
  by (auto simp: get_package_dependencies_def split: list.splits)

lemma bfs_step_skip:
  "queue st = (p, d) # rest \<Longrightarrow> p \<in> visited_packages st \<Longrightarrow> bfs_step cfg src st = st\<lparr>queue := rest\<rparr>"
  by (simp add: bfs_step_def)

lemma bfs_step_visit:
  "queue st = (p, d) # rest \<Longrightarrow> p \<notin> visited_packages st \<Longrightarrow>
   bfs_step cfg src st = visit cfg src p d (st\<lparr>queue := rest\<rparr>)"
  by (simp add: bfs_step_def)

lemma visit_fields:
  assumes "p \<notin> fst ` set (dependency_graph st)"
  shows "dependency_graph (visit cfg src p d st) =
           dependency_graph st @ [(p, apply_filter cfg (fst (get_package_dependencies cfg src p d)))]"
    and "visited_packages (visit cfg src p d st) = insert p (visited_packages st)"
    and "expanded (visit cfg src p d st) = expanded st @ [(p, d)]"
    and "fetch_log (visit cfg src p d st) = fetch_log st @ snd (get_package_dependencies cfg src p d)"
  using assms by (simp_all add: visit_def Let_def update_fresh)

lemma visited_mono_step: "visited_packages st \<subseteq> visited_packages (bfs_step cfg src st)"
  by (auto simp: bfs_step_def visit_def Let_def split: list.splits)

lemma pending_step:
  "fst ` set (queue st) \<union> visited_packages st
     \<subseteq> fst ` set (queue (bfs_step cfg src st)) \<union> visited_packages (bfs_step cfg src st)"
  by (auto simp: bfs_step_def visit_def Let_def split: list.splits)

lemma pending_visited:
  "fst ` set (queue st) \<union> visited_packages st \<subseteq> visited_packages (bfs_loop cfg src st)"
proof (induction cfg src st rule: bfs_loop.induct)
  case (1 cfg src st)
  show ?case
  proof (cases "queue st = []")
    case True
    then show ?thesis by (simp add: bfs_loop.simps)
  next
    case False
    with "1.IH" pending_step [of st cfg src] show ?thesis
      by (simp add: bfs_loop.simps [of cfg src st]) blast
  qed
qed

lemma entry_kept_step:
  "p \<in> visited_packages st \<Longrightarrow>
   map_of (dependency_graph (bfs_step cfg src st)) p = map_of (dependency_graph st) p"
  by (auto simp: bfs_step_def visit_def Let_def update_conv' split: list.splits)

lemma entry_kept:
  assumes "p \<in> visited_packages st"
  shows "map_of (dependency_graph (bfs_loop cfg src st)) p = map_of (dependency_graph st) p"
proof -
  let ?P = "\<lambda>s :: bfs_state. p \<in> visited_packages s \<and> map_of (dependency_graph s) p = map_of (dependency_graph st) p"
  have "?P (bfs_loop cfg src st)"
  proof (rule bfs_loop_rule [where P = ?P])
    show "?P st" using assms by simp
  next
    fix s assume "?P s" "queue s \<noteq> []"
    then show "?P (bfs_step cfg src s)"
      using visited_mono_step [of s cfg src] entry_kept_step [of p s cfg src] by auto
  qed
  then show ?thesis by simp
qed

subsection \<open>The invariants hold along the traversal\<close>

lemma keys_inv_initial: "keys_inv (initial_state cfg)"
  by (simp add: keys_inv_def initial_state_def)

lemma keys_inv_step:
  assumes "keys_inv st" and "queue st \<noteq> []"
  shows "keys_inv (bfs_step cfg src st)"
proof -
  obtain p d rest where q: "queue st = (p, d) # rest"
    using assms(2) by (cases "queue st") auto
  show ?thesis
  proof (cases "p \<in> visited_packages st")
    case True
    with q assms(1) show ?thesis by (simp add: bfs_step_skip keys_inv_def)
  next
    case False
    let ?st = "st\<lparr>queue := rest\<rparr>"
    have k: "keys_inv ?st" using assms(1) by (simp add: keys_inv_def)
    have fresh: "p \<notin> fst ` set (dependency_graph ?st)"
    proof -
      have "fst ` set (dependency_graph ?st) = set (map fst (expanded ?st))"
        using k by (metis keys_inv_def set_map)
      then show ?thesis using k False by (simp add: keys_inv_def)
    qed
    have pf: "p \<notin> set (fetch_log st)" using assms(1) False by (auto simp: keys_inv_def)
    have "keys_inv (visit cfg src p d ?st)"
      using k fresh False pf gpd_calls [of cfg src p d]
      by (auto simp: keys_inv_def visit_fields)
    with q False show ?thesis by (simp add: bfs_step_visit)
  qed
qed

lemma keys_inv_build: "keys_inv (build_dependency_graph cfg src)"
  unfolding build_dependency_graph_def
  by (rule bfs_loop_rule [where P = keys_inv]) (auto intro: keys_inv_initial keys_inv_step)

lemma keys_inv_fresh:
  "keys_inv st \<Longrightarrow> p \<notin> visited_packages st \<Longrightarrow> p \<notin> fst ` set (dependency_graph st)"
  by (metis keys_inv_def set_map)

lemma keys_inv_expanded_visited:
  "keys_inv st \<Longrightarrow> (q, e) \<in> set (expanded st) \<Longrightarrow> q \<in> visited_packages st"
  by (force simp: keys_inv_def)

lemma stored_inv_step:
  assumes "keys_inv st" and "stored_inv cfg src st" and "queue st \<noteq> []"
  shows "stored_inv cfg src (bfs_step cfg src st)"
proof -
  obtain p d rest where q: "queue st = (p, d) # rest"
    using assms(3) by (cases "queue st") auto
  show ?thesis
  proof (cases "p \<in> visited_packages st")
    case True
    with q assms(2) show ?thesis by (simp add: bfs_step_skip stored_inv_def)
  next
    case False
    let ?st = "st\<lparr>queue := rest\<rparr>"
    have fresh: "p \<notin> fst ` set (dependency_graph ?st)"
      using keys_inv_fresh [OF assms(1) False] by simp
    have old: "\<And>q e. (q, e) \<in> set (expanded st) \<Longrightarrow> q \<noteq> p"
      using keys_inv_expanded_visited [OF assms(1)] False by blast
    have "stored_inv cfg src (visit cfg src p d ?st)"
      unfolding stored_inv_def visit_fields [OF fresh]
      using assms(2) fresh old
      by (auto simp: stored_inv_def map_of_snoc_fresh intro: map_of_snoc_old simp del: map_of_append)
    with q False show ?thesis by (simp add: bfs_step_visit)
  qed
qed

lemma origin_inv_step:
  assumes "keys_inv st" and "origin_inv cfg st" and "queue st \<noteq> []"
  shows "origin_inv cfg (bfs_step cfg src st)"
proof -
  obtain p d rest where q: "queue st = (p, d) # rest"
    using assms(3) by (cases "queue st") auto
  show ?thesis
  proof (cases "p \<in> visited_packages st")
    case True
    with q assms(2) show ?thesis by (simp add: bfs_step_skip origin_inv_def)
  next
    case False
    let ?st = "st\<lparr>queue := rest\<rparr>"
    let ?deps = "apply_filter cfg (fst (get_package_dependencies cfg src p d))"
    let ?st' = "visit cfg src p d ?st"
    have fresh: "p \<notin> fst ` set (dependency_graph ?st)"
      using keys_inv_fresh [OF assms(1) False] by simp
    have g': "dependency_graph ?st' = dependency_graph st @ [(p, ?deps)]"
      and e': "expanded ?st' = expanded st @ [(p, d)]"
      using visit_fields [OF fresh] by simp_all
    have q': "set (queue ?st') \<subseteq> set rest \<union>
        (if d + 1 < max_depth cfg then (\<lambda>dep. (dep_key dep, d + 1)) ` set ?deps else {})"
      by (auto simp: visit_def Let_def)
    have keep: "map_of (dependency_graph ?st') q' = Some ds"
      if "map_of (dependency_graph st) q' = Some ds" for q' ds
      using that unfolding g' by (rule map_of_snoc_old)
    have newp: "map_of (dependency_graph ?st') p = Some ?deps"
      unfolding g' using fresh by (intro map_of_snoc_fresh) simp
    have d0: "0 \<le> d" using assms(2) q by (auto simp: origin_inv_def)
    have old: "0 \<le> e \<and> ((c, e) = (package_name cfg, 0) \<or>
         (e < max_depth cfg \<and>
          (\<exists>q deps. (q, e - 1) \<in> set (expanded ?st') \<and>
             map_of (dependency_graph ?st') q = Some deps \<and> c \<in> dep_key ` set deps)))"
      if "(c, e) \<in> set (queue st) \<union> set (expanded st)" for c e
    proof -
      from that assms(2) have a: "0 \<le> e" and
        b: "(c, e) = (package_name cfg, 0) \<or>
         (e < max_depth cfg \<and>
          (\<exists>q deps. (q, e - 1) \<in> set (expanded st) \<and>
             map_of (dependency_graph st) q = Some deps \<and> c \<in> dep_key ` set deps))"
        unfolding origin_inv_def by blast+
      from b show ?thesis
      proof
        assume "(c, e) = (package_name cfg, 0)"
        with a show ?thesis by simp
      next
        assume "e < max_depth cfg \<and>
          (\<exists>q deps. (q, e - 1) \<in> set (expanded st) \<and>
             map_of (dependency_graph st) q = Some deps \<and> c \<in> dep_key ` set deps)"
        then obtain q0 ds where "e < max_depth cfg" "(q0, e - 1) \<in> set (expanded st)"
          "map_of (dependency_graph st) q0 = Some ds" "c \<in> dep_key ` set ds" by blast
        then have "e < max_depth cfg \<and> (q0, e - 1) \<in> set (expanded ?st') \<and>
          map_of (dependency_graph ?st') q0 = Some ds \<and> c \<in> dep_key ` set ds"
          using keep by (simp add: e')
        with a show ?thesis by blast
      qed
    qed
    have new: "0 \<le> d + 1 \<and> ((c, d + 1) = (package_name cfg, 0) \<or>
         (d + 1 < max_depth cfg \<and>
          (\<exists>q deps. (q, d + 1 - 1) \<in> set (expanded ?st') \<and>
             map_of (dependency_graph ?st') q = Some deps \<and> c \<in> dep_key ` set deps)))"
      if "d + 1 < max_depth cfg" "c \<in> dep_key ` set ?deps" for c
    proof -
      have "(p, d + 1 - 1) \<in> set (expanded ?st')" by (simp add: e')
      with that newp d0 show ?thesis by fastforce
    qed
    have "origin_inv cfg ?st'"
      unfolding origin_inv_def
    proof (intro ballI, clarify)
      fix c e assume m: "(c, e) \<in> set (queue ?st') \<union> set (expanded ?st')"
      then consider "(c, e) \<in> set (queue st) \<union> set (expanded st)"
        | "d + 1 < max_depth cfg" "e = d + 1" "c \<in> dep_key ` set ?deps"
        using q' q by (auto simp: e' split: if_splits)
      then show "0 \<le> e \<and> ((c, e) = (package_name cfg, 0) \<or>
         (e < max_depth cfg \<and>
          (\<exists>q deps. (q, e - 1) \<in> set (expanded ?st') \<and>
             map_of (dependency_graph ?st') q = Some deps \<and> c \<in> dep_key ` set deps)))"
      proof cases
        case 1
        then show ?thesis by (rule old)
      next
        case 2
        then show ?thesis using new [of c] by simp
      qed
    qed
    with q False show ?thesis by (simp add: bfs_step_visit)
  qed
qed

lemma traversal_inv_initial: "traversal_inv cfg src (initial_state cfg)"
  by (simp add: traversal_inv_def keys_inv_initial)
     (simp add: stored_inv_def origin_inv_def initial_state_def)

lemma traversal_inv_step:
  "traversal_inv cfg src st \<Longrightarrow> queue st \<noteq> [] \<Longrightarrow> traversal_inv cfg src (bfs_step cfg src st)"
  by (simp add: traversal_inv_def keys_inv_step stored_inv_step origin_inv_step)

lemma traversal_inv_build: "traversal_inv cfg src (build_dependency_graph cfg src)"
  unfolding build_dependency_graph_def
  by (rule bfs_loop_rule [where P = "traversal_inv cfg src"])
     (auto intro: traversal_inv_initial traversal_inv_step)

lemma reachable_inv: "bfs_reachable cfg src st \<Longrightarrow> traversal_inv cfg src st"
  by (induction rule: bfs_reachable.induct) (auto intro: traversal_inv_initial traversal_inv_step)

lemma reachable_result:
  "bfs_reachable cfg src st \<Longrightarrow> bfs_loop cfg src st = build_dependency_graph cfg src"
  by (induction rule: bfs_reachable.induct) (simp_all add: build_dependency_graph_def bfs_loop_step)

subsection \<open>The tree renderer along a path\<close>

lemma print_tree_node_total: "print_tree_node_dom (cfg, g, package, level, visited)"
proof (induction "nat (max_depth cfg - level)" arbitrary: package level visited rule: less_induct)
  case less
  show ?case
  proof (rule print_tree_node.domintros)
    fix dep
    assume "level + 1 < max_depth cfg"
    then have "nat (max_depth cfg - (level + 1)) < nat (max_depth cfg - level)" by simp
    then show "print_tree_node_dom (cfg, g, dep_key dep, level + 1, insert package visited)"
      by (rule less.hyps)
  qed
qed

lemma marker_only:
  "package \<in> visited \<Longrightarrow> print_tree_node cfg g package level visited = [Cyclic level package]"
  by (simp add: print_tree_node.simps)


lemma children_on_path:
  assumes "package \<notin> visited" and "map_of g package = Some deps"
  shows "print_tree_node cfg g package level visited =
     Node level package #
       concat (map (\<lambda>(i, dep).
           if dep_key dep \<in> insert package visited
           then (if level + 1 < max_depth cfg
                 then [Cyclic (level + 1) (dep_key dep)]
                 else [DepthLimited (level + 1) (int i = int (length deps) - 1) (dep_key dep)])
           else (if level + 1 < max_depth cfg
                 then print_tree_node cfg g (dep_key dep) (level + 1) (insert package visited)
                 else [DepthLimited (level + 1) (int i = int (length deps) - 1) (dep_key dep)]))
         (enumerate 0 deps))"
proof -
  have "map (\<lambda>idep.
                 if level + 1 < max_depth cfg
                 then print_tree_node cfg g (dep_key (snd idep)) (level + 1)
                        (insert package visited)
                 else [DepthLimited (level + 1)
                         (int (fst idep) = int (length deps) - 1)
                         (dep_key (snd idep))]) (enumerate 0 deps)
      = map (\<lambda>(i, dep).
           if dep_key dep \<in> insert package visited
           then (if level + 1 < max_depth cfg
                 then [Cyclic (level + 1) (dep_key dep)]
                 else [DepthLimited (level + 1) (int i = int (length deps) - 1) (dep_key dep)])
           else (if level + 1 < max_depth cfg
                 then print_tree_node cfg g (dep_key dep) (level + 1) (insert package visited)
                 else [DepthLimited (level + 1) (int i = int (length deps) - 1) (dep_key dep)]))
         (enumerate 0 deps)"
    by (rule map_cong [OF refl]) (simp add: marker_only split: prod.splits)
  then have "concat (map (\<lambda>idep.
                 if level + 1 < max_depth cfg
                 then print_tree_node cfg g (dep_key (snd idep)) (level + 1)
                        (insert package visited)
                 else [DepthLimited (level + 1)
                         (int (fst idep) = int (length deps) - 1)
                         (dep_key (snd idep))]) (enumerate 0 deps))
      = concat (map (\<lambda>(i, dep).
           if dep_key dep \<in> insert package visited
           then (if level + 1 < max_depth cfg
                 then [Cyclic (level + 1) (dep_key dep)]
                 else [DepthLimited (level + 1) (int i = int (length deps) - 1) (dep_key dep)])
           else (if level + 1 < max_depth cfg
                 then print_tree_node cfg g (dep_key dep) (level + 1) (insert package visited)
                 else [DepthLimited (level + 1) (int i = int (length deps) - 1) (dep_key dep)]))
         (enumerate 0 deps))"
    by (rule arg_cong)
  then show ?thesis
    using assms by (simp only: print_tree_node.simps [of cfg g package level visited] if_False option.case)
qed

lemma render_cyclic_text:
  "render_line (Cyclic level package) =
     indent level @
     [CHR 0xE2, CHR 0x94, CHR 0x94, CHR 0xE2, CHR 0x94, CHR 0x80, CHR 0xE2, CHR 0x94, CHR 0x80,
      CHR '' ''] @ package @
     '' ('' @
     [CHR 0xD1, CHR 0x86, CHR 0xD0, CHR 0xB8, CHR 0xD0, CHR 0xBA, CHR 0xD0, CHR 0xBB,
      CHR 0xD0, CHR 0xB8, CHR 0xD1, CHR 0x87, CHR 0xD0, CHR 0xB5, CHR 0xD1, CHR 0x81,
      CHR 0xD0, CHR 0xBA, CHR 0xD0, CHR 0xB0, CHR 0xD1, CHR 0x8F] @ '' '' @
     [CHR 0xD0, CHR 0xB7, CHR 0xD0, CHR 0xB0, CHR 0xD0, CHR 0xB2, CHR 0xD0, CHR 0xB8,
      CHR 0xD1, CHR 0x81, CHR 0xD0, CHR 0xB8, CHR 0xD0, CHR 0xBC, CHR 0xD0, CHR 0xBE,
      CHR 0xD1, CHR 0x81, CHR 0xD1, CHR 0x82, CHR 0xD1, CHR 0x8C] @ '')''"
  by (simp add: glyph_last_def cyclic_suffix_def)











subsection \<open>The scenarios, evaluated\<close>



lemma scenario_b_tree:
  "print_tree_node cycle_config cycle_graph ''x:x'' 0 {} =
     [Node 0 ''x:x'', Node 1 ''y:y'', Cyclic 2 ''x:x'']"
  by code_simp

lemma scenario_c_state:
  "build_dependency_graph (diamond_config 2) diamond_source =
     \<lparr>queue = [],
      dependency_graph =
        [(''a:a'', [mk_dep ''b'' ''b'' ''1.0'', mk_dep ''c'' ''c'' ''1.0'']),
         (''b:b'', [mk_dep ''d'' ''d'' ''1.0'']),
         (''c:c'', [mk_dep ''d'' ''d'' ''1.0''])],
      visited_packages = {''c:c'', ''b:b'', ''a:a''},
      fetch_log = [''a:a'', ''b:b'', ''c:c''],
      expanded = [(''a:a'', 0), (''b:b'', 1), (''c:c'', 1)]\<rparr>"
  by code_simp

lemma flaky_after_root:
  "bfs_step (diamond_config 3) flaky_source (initial_state (diamond_config 3)) =
     \<lparr>queue = [(''b:b'', 1), (''c:c'', 1)],
      dependency_graph = [(''a:a'', [mk_dep ''b'' ''b'' ''1.0'', mk_dep ''c'' ''c'' ''1.0''])],
      visited_packages = {''a:a''},
      fetch_log = [''a:a''],
      expanded = [(''a:a'', 0)]\<rparr>"
  by code_simp

lemma spring_tree:
  "print_tree_node spring_config
       (dependency_graph (build_dependency_graph spring_config unused_source))
       ''org.springframework:spring-core'' 0 {} =
     [Node 0 ''org.springframework:spring-core'',
      Node 1 ''commons-logging:commons-logging'',
      DepthLimited 2 False ''junit:junit'',
      DepthLimited 2 True ''org.slf4j:slf4j-api'',
      Node 1 ''org.springframework:spring-jcl'',
      DepthLimited 2 True ''org.slf4j:slf4j-api'']"
  by code_simp

lemma shallow_cycle_graph:
  "dependency_graph (build_dependency_graph shallow_cycle_config cycle_source) = cycle_graph"
  by code_simp

lemma shallow_cycle_tree:
  "print_tree_node shallow_cycle_config cycle_graph ''x:x'' 0 {} =
     [Node 0 ''x:x'', Node 1 ''y:y'', DepthLimited 2 True ''x:x'']"
  by code_simp

lemma shallow_cycle_inner:
  "print_tree_node shallow_cycle_config cycle_graph ''y:y'' 1 {''x:x''} =
     [Node 1 ''y:y'', DepthLimited 2 True ''x:x'']"
  by code_simp





subsection \<open>The text of the diagram\<close>

lemma split_on_not_Nil: "split_on sep s \<noteq> []"
  by (induction s) (auto split: list.splits)

lemma split_on_line:
  "sep \<notin> set l \<Longrightarrow> split_on sep (l @ sep # rest) = l # split_on sep rest"
  by (induction l) (auto split: list.splits)

lemma text_lines_terminated:
  "(\<forall>l \<in> set ls. CHR 0x0A \<notin> set l) \<Longrightarrow>
   text_lines (concat (map (\<lambda>l. l @ [CHR 0x0A]) ls)) = ls"
proof (induction ls)
  case Nil
  then show ?case by (simp add: text_lines_def)
next
  case (Cons l ls)
  have "split_on (CHR 0x0A) (l @ CHR 0x0A # concat (map (\<lambda>l. l @ [CHR 0x0A]) ls))
      = l # split_on (CHR 0x0A) (concat (map (\<lambda>l. l @ [CHR 0x0A]) ls))"
    using Cons.prems by (intro split_on_line) simp
  then show ?case using Cons split_on_not_Nil by (simp add: text_lines_def)
qed

lemma d2_header_text: "d2_header = concat (map (\<lambda>l. l @ [CHR 0x0A]) d2_header_lines)"
  by (simp add: d2_header_def d2_header_lines_def)

lemma d2_header_lines_plain: "\<forall>l \<in> set d2_header_lines. CHR 0x0A \<notin> set l"
  by (simp add: d2_header_lines_def)

lemma d2_statements:
  "generate_d2_diagram g =
     concat (map (\<lambda>l. l @ [CHR 0x0A])
       (d2_header_lines @
        map (\<lambda>k. [CHR 0x22] @ k @ [CHR 0x22]) (map fst g) @
        map (\<lambda>(p, c). [CHR 0x22] @ p @ [CHR 0x22] @ '' -> '' @ [CHR 0x22] @ c @ [CHR 0x22])
          (edge_pairs g)))"
proof -
  have 1: "generate_d2_diagram g =
     d2_header @ concat (map node_decl (map fst g)) @
       concat (map (\<lambda>(p, c). edge_stmt p c) (edge_pairs g))"
    unfolding generate_d2_diagram_def Let_def fold_edges
    by (simp add: fold_append_concat)
  have 2: "concat (map node_decl ks) =
     concat (map (\<lambda>l. l @ [CHR 0x0A]) (map (\<lambda>k. [CHR 0x22] @ k @ [CHR 0x22]) ks))" for ks
    by (induction ks) (simp_all add: node_decl_def)
  have 3: "concat (map (\<lambda>(p, c). edge_stmt p c) es) =
     concat (map (\<lambda>l. l @ [CHR 0x0A])
       (map (\<lambda>(p, c). [CHR 0x22] @ p @ [CHR 0x22] @ '' -> '' @ [CHR 0x22] @ c @ [CHR 0x22]) es))"
    for es
    by (induction es) (auto simp: edge_stmt_def)
  show ?thesis
    by (simp only: 1 2 3 d2_header_text map_append concat_append)
qed

lemma edge_pairs_length: "length (edge_pairs g) = sum_list (map (\<lambda>(p, ds). length ds) g)"
  by (induction g) (auto simp: edge_pairs_def)

lemma diamond_edge_pairs:
  "edge_pairs diamond_graph =
     [(''a:a'', ''b:b''), (''a:a'', ''c:c''), (''b:b'', ''d:d''), (''c:c'', ''d:d'')]"
  by (simp add: edge_pairs_def diamond_graph_def mk_dep_def dep_key_def)

lemma newline_root_graph:
  "dependency_graph (build_dependency_graph newline_root_config unused_source) =
     [(newline_key, [])]"
  by code_simp

lemma newline_root_text:
  "text_lines (generate_d2_diagram [(newline_key, [])]) =
     d2_header_lines @ [[CHR 0x22] @ ''a'', ''b:c'' @ [CHR 0x22]]"
  by code_simp

section \<open>Properties of the specification, C1 to C10\<close>

text \<open>
  C1. In every run of \<open>build_dependency_graph\<close>, for any root, depth bound, source and
  filter, no coordinate is a key of the graph twice, no coordinate is sent to the source
  twice, and no coordinate passes the visited check twice; the keys of the graph are the
  expanded coordinates, in the order of their expansion. The number of parents that
  reference a coordinate plays no role.
\<close>

theorem build_expands_once:
  "distinct (map fst (dependency_graph (build_dependency_graph cfg src))) \<and>
   distinct (fetch_log (build_dependency_graph cfg src)) \<and>
   distinct (map fst (expanded (build_dependency_graph cfg src))) \<and>
   map fst (dependency_graph (build_dependency_graph cfg src)) =
     map fst (expanded (build_dependency_graph cfg src))"
  using keys_inv_build [of cfg src] by (simp add: keys_inv_def)

text \<open>
  C2. A coordinate \<open>p\<close> dequeued and expanded at depth \<open>max_depth - 1\<close> has its whole
  filtered list of direct dependencies as its graph entry: the list that a fetch at
  depth 0 gives. The iteration that expands it adds nothing to the deque. A child of
  \<open>p\<close> that is a key of the final graph was expanded at a depth below \<open>max_depth\<close>, as the
  root or as the child of an expanded coordinate other than \<open>p\<close>.
\<close>

theorem depth_boundary_recorded_not_expanded:
  assumes "(p, d) \<in> set (expanded (build_dependency_graph cfg src))"
      and "d + 1 = max_depth cfg"
  shows "map_of (dependency_graph (build_dependency_graph cfg src)) p =
           Some (apply_filter cfg (fst (get_package_dependencies cfg src p 0))) \<and>
         (\<forall>st rest. queue st = (p, d) # rest \<and> p \<notin> visited_packages st \<longrightarrow>
            queue (bfs_step cfg src st) = rest \<and>
            map_of (dependency_graph (bfs_step cfg src st)) p =
              Some (apply_filter cfg (fst (get_package_dependencies cfg src p 0)))) \<and>
         (\<forall>k \<in> dep_key ` set (apply_filter cfg (fst (get_package_dependencies cfg src p 0))).
            k \<in> fst ` set (dependency_graph (build_dependency_graph cfg src)) \<longrightarrow>
            (\<exists>e. (k, e) \<in> set (expanded (build_dependency_graph cfg src)) \<and> e < d + 1 \<and>
               (k = package_name cfg \<and> e = 0 \<or>
                (\<exists>q deps. q \<noteq> p \<and> (q, e - 1) \<in> set (expanded (build_dependency_graph cfg src)) \<and>
                   map_of (dependency_graph (build_dependency_graph cfg src)) q = Some deps \<and>
                   k \<in> dep_key ` set deps))))"
proof -
  let ?fin = "build_dependency_graph cfg src"
  have inv: "keys_inv ?fin" "stored_inv cfg src ?fin" "origin_inv cfg ?fin"
    using traversal_inv_build [of cfg src] by (simp_all add: traversal_inv_def)
  have d0: "0 \<le> d" using inv(3) assms(1) by (auto simp: origin_inv_def)
  have gpd: "get_package_dependencies cfg src p d = get_package_dependencies cfg src p 0"
    using d0 assms(2) by (intro gpd_depth_irrelevant) auto
  have A: "map_of (dependency_graph ?fin) p =
           Some (apply_filter cfg (fst (get_package_dependencies cfg src p 0)))"
    using inv(2) assms(1) gpd by (auto simp: stored_inv_def)
  have B: "queue (bfs_step cfg src st) = rest \<and>
            map_of (dependency_graph (bfs_step cfg src st)) p =
              Some (apply_filter cfg (fst (get_package_dependencies cfg src p 0)))"
    if "queue st = (p, d) # rest" "p \<notin> visited_packages st" for st rest
    using that assms(2) gpd by (simp add: bfs_step_visit visit_def Let_def update_conv')
  have C: "\<exists>e. (k, e) \<in> set (expanded ?fin) \<and> e < d + 1 \<and>
               (k = package_name cfg \<and> e = 0 \<or>
                (\<exists>q deps. q \<noteq> p \<and> (q, e - 1) \<in> set (expanded ?fin) \<and>
                   map_of (dependency_graph ?fin) q = Some deps \<and> k \<in> dep_key ` set deps))"
    if "k \<in> fst ` set (dependency_graph ?fin)" for k
  proof -
    have "k \<in> set (map fst (expanded ?fin))"
      using that inv(1) by (metis keys_inv_def set_map)
    then obtain e where ke: "(k, e) \<in> set (expanded ?fin)" by auto
    with inv(3) have e0: "0 \<le> e" and
      or: "(k, e) = (package_name cfg, 0) \<or>
         (e < max_depth cfg \<and>
          (\<exists>q deps. (q, e - 1) \<in> set (expanded ?fin) \<and>
             map_of (dependency_graph ?fin) q = Some deps \<and> k \<in> dep_key ` set deps))"
      unfolding origin_inv_def by blast+
    from or show ?thesis
    proof
      assume "(k, e) = (package_name cfg, 0)"
      with ke d0 show ?thesis by auto
    next
      assume "e < max_depth cfg \<and>
          (\<exists>q deps. (q, e - 1) \<in> set (expanded ?fin) \<and>
             map_of (dependency_graph ?fin) q = Some deps \<and> k \<in> dep_key ` set deps)"
      then obtain q ds where lt: "e < max_depth cfg" and qe: "(q, e - 1) \<in> set (expanded ?fin)"
        and m: "map_of (dependency_graph ?fin) q = Some ds" and kc: "k \<in> dep_key ` set ds"
        by blast
      have "q \<noteq> p"
      proof
        assume "q = p"
        with qe assms(1) have "e - 1 = d"
          using distinct_fst_unique [of "expanded ?fin" p "e - 1" d] inv(1)
          by (simp add: keys_inv_def)
        with lt assms(2) show False by simp
      qed
      with ke lt qe m kc assms(2) show ?thesis by auto
    qed
  qed
  show ?thesis using A B C by blast
qed

theorem depth_boundary_recorded_not_expanded_witness:
  "(''b:b'', 1) \<in> set (expanded (build_dependency_graph (diamond_config 2) diamond_source)) \<and>
   1 + 1 = max_depth (diamond_config 2) \<and>
   map_of (dependency_graph (build_dependency_graph (diamond_config 2) diamond_source)) ''b:b'' =
     Some (apply_filter (diamond_config 2)
            (fst (get_package_dependencies (diamond_config 2) diamond_source ''b:b'' 0))) \<and>
   map_of (dependency_graph (build_dependency_graph (diamond_config 2) diamond_source)) ''b:b'' =
     Some [mk_dep ''d'' ''d'' ''1.0''] \<and>
   ''d:d'' \<notin> fst ` set (dependency_graph (build_dependency_graph (diamond_config 2) diamond_source))"
proof -
  have e: "(''b:b'', 1) \<in> set (expanded (build_dependency_graph (diamond_config 2) diamond_source))"
    by (simp add: scenario_c_state)
  have d: "1 + 1 = max_depth (diamond_config 2)" by (simp add: diamond_config_def)
  show ?thesis
    using depth_boundary_recorded_not_expanded [OF e d] e d
    by (simp add: scenario_c_state)
qed

text \<open>
  C3, as the code has it. For the diamond source with \<open>max_depth = 2\<close> and no filter the
  graph is \<open>a:a\<close> with \<open>b:b, c:c\<close>, then \<open>b:b\<close> with \<open>d:d\<close>, then \<open>c:c\<close> with
  \<open>d:d\<close>: the nodes at the depth boundary keep their direct dependencies, and \<open>d:d\<close>
  is not a key.
\<close>

theorem scenario_c_graph:
  "dependency_graph (build_dependency_graph (diamond_config 2) diamond_source) =
     [(''a:a'', [mk_dep ''b'' ''b'' ''1.0'', mk_dep ''c'' ''c'' ''1.0'']),
      (''b:b'', [mk_dep ''d'' ''d'' ''1.0'']),
      (''c:c'', [mk_dep ''d'' ''d'' ''1.0''])] \<and>
   map_of (dependency_graph (build_dependency_graph (diamond_config 2) diamond_source)) ''d:d'' = None"
  by (simp add: scenario_c_state)

text \<open>
  C3 as the specification states it, with empty lists for \<open>b:b\<close> and \<open>c:c\<close>, is not
  the graph that is built.
\<close>

theorem scenario_c_counterexample:
  "dependency_graph (build_dependency_graph (diamond_config 2) diamond_source) \<noteq>
     [(''a:a'', [mk_dep ''b'' ''b'' ''1.0'', mk_dep ''c'' ''c'' ''1.0'']),
      (''b:b'', []),
      (''c:c'', [])]"
  by (simp add: scenario_c_state)

text \<open>
  C4, as the code has it. \<open>build_dependency_graph\<close> returns a graph for every root and
  never raises; a root that does not split at \<open>:\<close> into exactly two parts becomes the
  only key of the graph, with an empty dependency list.
\<close>

theorem build_never_raises:
  "\<exists>g. build_outcome cfg src = Inr g \<and>
       (length (split_on (CHR '':'') (package_name cfg)) \<noteq> 2 \<longrightarrow> g = [(package_name cfg, [])])"
proof -
  have "dependency_graph (build_dependency_graph cfg src) = [(package_name cfg, [])]"
    if "length (split_on (CHR '':'') (package_name cfg)) \<noteq> 2"
  proof -
    let ?s1 = "bfs_step cfg src (initial_state cfg)"
    have s1: "queue ?s1 = []" "dependency_graph ?s1 = [(package_name cfg, [])]"
      using gpd_malformed [OF that, of cfg src 0]
      by (simp_all add: bfs_step_def initial_state_def visit_def Let_def apply_filter_Nil)
    have "bfs_loop cfg src (initial_state cfg) = bfs_loop cfg src ?s1"
      by (subst bfs_loop.simps) (simp add: initial_state_def)
    also have "\<dots> = ?s1" using s1(1) by (subst bfs_loop.simps) simp
    finally show ?thesis by (simp add: build_dependency_graph_def s1(2))
  qed
  then show ?thesis by (simp add: build_outcome_def)
qed

theorem build_never_raises_witness:
  "length (split_on (CHR '':'') (package_name malformed_root_config)) \<noteq> 2 \<and>
   build_outcome malformed_root_config diamond_source = Inr [(''abc'', [])]"
proof -
  have l: "length (split_on (CHR '':'') (package_name malformed_root_config)) \<noteq> 2"
    by (simp add: malformed_root_config_def)
  have n: "package_name malformed_root_config = ''abc''"
    by (simp add: malformed_root_config_def)
  show ?thesis
    using build_never_raises [of malformed_root_config diamond_source] l n by auto
qed

text \<open>
  C4 as the specification states it fails at the root \<open>abc\<close>: it is not a coordinate,
  and the build returns.
\<close>

theorem malformed_root_counterexample:
  "\<not> (isl (build_outcome malformed_root_config diamond_source) \<longleftrightarrow>
        \<not> parses_as_coordinate (package_name malformed_root_config))"
  by (simp add: build_outcome_def parses_as_coordinate_def malformed_root_config_def)

text \<open>
  C5. When the traversal dequeues a coordinate that is not yet visited and the remote
  fetch for it fails, the coordinate is a key of the final graph with the empty list,
  the iteration leaves exactly the rest of the deque, the traversal runs until the
  deque is empty, and every coordinate that was waiting in the deque is a key of the
  final graph. This holds for the root as well.
\<close>

theorem fetch_failure_is_leaf:
  assumes "bfs_reachable cfg src st"
      and "queue st = (p, d) # rest"
      and "p \<notin> visited_packages st"
      and "mode cfg = Remote"
      and "split_on (CHR '':'') p = [group_id, artifact_id]"
      and "src group_id artifact_id = Inl e"
  shows "map_of (dependency_graph (build_dependency_graph cfg src)) p = Some [] \<and>
         queue (bfs_step cfg src st) = rest \<and>
         queue (build_dependency_graph cfg src) = [] \<and>
         fst ` set rest \<subseteq> fst ` set (dependency_graph (build_dependency_graph cfg src))"
proof -
  let ?st' = "bfs_step cfg src st"
  let ?fin = "build_dependency_graph cfg src"
  have ne: "queue st \<noteq> []" using assms(2) by simp
  have fin: "bfs_loop cfg src ?st' = ?fin"
    using reachable_result [OF assms(1)] bfs_loop_step [OF ne] by simp
  have gpd: "fst (get_package_dependencies cfg src p d) = []"
    using assms(4,5,6) by (simp add: get_package_dependencies_def)
  have flt: "apply_filter cfg [] = []"
    by (simp add: apply_filter_def split: option.splits)
  have step: "map_of (dependency_graph ?st') p = Some []" "p \<in> visited_packages ?st'"
    "queue ?st' = rest"
    using assms(2,3) gpd flt by (simp_all add: bfs_step_visit visit_def Let_def update_conv')
  have A: "map_of (dependency_graph ?fin) p = Some []"
    using entry_kept [OF step(2), of cfg src] step(1) fin by simp
  have C: "queue ?fin = []"
    by (simp add: build_dependency_graph_def bfs_loop_queue_empty)
  have "fst ` set rest \<subseteq> visited_packages ?fin"
    using pending_visited [of ?st' cfg src] step(3) fin by auto
  moreover have "visited_packages ?fin = fst ` set (dependency_graph ?fin)"
    using keys_inv_build [of cfg src] by (metis keys_inv_def set_map)
  ultimately have D: "fst ` set rest \<subseteq> fst ` set (dependency_graph ?fin)" by simp
  show ?thesis using A step(3) C D by blast
qed

theorem fetch_failure_is_leaf_witness:
  "bfs_reachable (diamond_config 3) flaky_source
     (bfs_step (diamond_config 3) flaky_source (initial_state (diamond_config 3))) \<and>
   queue (bfs_step (diamond_config 3) flaky_source (initial_state (diamond_config 3))) =
     (''b:b'', 1) # [(''c:c'', 1)] \<and>
   ''b:b'' \<notin> visited_packages
     (bfs_step (diamond_config 3) flaky_source (initial_state (diamond_config 3))) \<and>
   mode (diamond_config 3) = Remote \<and>
   split_on (CHR '':'') ''b:b'' = [''b'', ''b''] \<and>
   flaky_source ''b'' ''b'' = Inl DownloadFailed \<and>
   map_of (dependency_graph (build_dependency_graph (diamond_config 3) flaky_source)) ''b:b'' = Some [] \<and>
   queue (build_dependency_graph (diamond_config 3) flaky_source) = [] \<and>
   fst ` set [(''c:c'', 1 :: int)] \<subseteq>
     fst ` set (dependency_graph (build_dependency_graph (diamond_config 3) flaky_source))"
proof -
  let ?st = "bfs_step (diamond_config 3) flaky_source (initial_state (diamond_config 3))"
  have r: "bfs_reachable (diamond_config 3) flaky_source ?st"
    by (rule bfs_reachable.iterate [OF bfs_reachable.start]) (simp add: initial_state_def)
  have q: "queue ?st = (''b:b'', 1) # [(''c:c'', 1)]" by (simp add: flaky_after_root)
  have v: "''b:b'' \<notin> visited_packages ?st" by (simp add: flaky_after_root)
  have m: "mode (diamond_config 3) = Remote" by (simp add: diamond_config_def)
  have s: "split_on (CHR '':'') ''b:b'' = [''b'', ''b'']" by simp
  have f: "flaky_source ''b'' ''b'' = Inl DownloadFailed" by (simp add: flaky_source_def)
  show ?thesis
    using fetch_failure_is_leaf [OF r q v m s f] r q v m s f by blast
qed

text \<open>
  C6, as the code has it. \<open>_print_tree_node\<close> terminates on every graph, cyclic or not,
  for every package, level and path set. A call for a package that is already in the
  path set prints one line and nothing else: the indentation, the last-sibling glyph,
  the package and the cyclic-dependency text. A child that is on the path is given to
  such a call, and so printed as this marker without a line of a descendant, when its
  level is below \<open>max_depth\<close>; at the depth bound it is printed as a depth-limited line,
  as every other child there.
\<close>

theorem print_tree_node_terminates_marks_cycle:
  "print_tree_node_dom (cfg, g, package, level, visited) \<and>
   (package \<in> visited \<longrightarrow>
      map render_line (print_tree_node cfg g package level visited) =
        [indent level @
         [CHR 0xE2, CHR 0x94, CHR 0x94, CHR 0xE2, CHR 0x94, CHR 0x80, CHR 0xE2, CHR 0x94,
          CHR 0x80, CHR '' ''] @ package @
         '' ('' @
         [CHR 0xD1, CHR 0x86, CHR 0xD0, CHR 0xB8, CHR 0xD0, CHR 0xBA, CHR 0xD0, CHR 0xBB,
          CHR 0xD0, CHR 0xB8, CHR 0xD1, CHR 0x87, CHR 0xD0, CHR 0xB5, CHR 0xD1, CHR 0x81,
          CHR 0xD0, CHR 0xBA, CHR 0xD0, CHR 0xB0, CHR 0xD1, CHR 0x8F] @ '' '' @
         [CHR 0xD0, CHR 0xB7, CHR 0xD0, CHR 0xB0, CHR 0xD0, CHR 0xB2, CHR 0xD0, CHR 0xB8,
          CHR 0xD1, CHR 0x81, CHR 0xD0, CHR 0xB8, CHR 0xD0, CHR 0xBC, CHR 0xD0, CHR 0xBE,
          CHR 0xD1, CHR 0x81, CHR 0xD1, CHR 0x82, CHR 0xD1, CHR 0x8C] @ '')'']) \<and>
   (package \<notin> visited \<and> map_of g package = Some deps \<longrightarrow>
      print_tree_node cfg g package level visited =
        Node level package #
          concat (map (\<lambda>(i, dep).
              if dep_key dep \<in> insert package visited
              then (if level + 1 < max_depth cfg
                    then [Cyclic (level + 1) (dep_key dep)]
                    else [DepthLimited (level + 1) (int i = int (length deps) - 1)
                            (dep_key dep)])
              else (if level + 1 < max_depth cfg
                    then print_tree_node cfg g (dep_key dep) (level + 1)
                           (insert package visited)
                    else [DepthLimited (level + 1) (int i = int (length deps) - 1)
                            (dep_key dep)]))
            (enumerate 0 deps)))"
proof -
  have 1: "print_tree_node_dom (cfg, g, package, level, visited)"
    by (rule print_tree_node_total)
  have 2: "map render_line (print_tree_node cfg g package level visited) =
             [render_line (Cyclic level package)]" if "package \<in> visited"
    using that by (simp add: print_tree_node.simps)
  show ?thesis
    using 1 2 children_on_path [of package visited g deps cfg level]
    by (simp only: render_cyclic_text) blast
qed

theorem print_tree_node_terminates_marks_cycle_witness:
  "''x:x'' \<in> {''y:y'', ''x:x''} \<and>
   print_tree_node_dom (cycle_config, cycle_graph, ''x:x'', 2, {''y:y'', ''x:x''}) \<and>
   map render_line (print_tree_node cycle_config cycle_graph ''x:x'' 2 {''y:y'', ''x:x''}) =
     [''    '' @
      [CHR 0xE2, CHR 0x94, CHR 0x94, CHR 0xE2, CHR 0x94, CHR 0x80, CHR 0xE2, CHR 0x94,
       CHR 0x80, CHR '' ''] @ ''x:x'' @
      '' ('' @
      [CHR 0xD1, CHR 0x86, CHR 0xD0, CHR 0xB8, CHR 0xD0, CHR 0xBA, CHR 0xD0, CHR 0xBB,
       CHR 0xD0, CHR 0xB8, CHR 0xD1, CHR 0x87, CHR 0xD0, CHR 0xB5, CHR 0xD1, CHR 0x81,
       CHR 0xD0, CHR 0xBA, CHR 0xD0, CHR 0xB0, CHR 0xD1, CHR 0x8F] @ '' '' @
      [CHR 0xD0, CHR 0xB7, CHR 0xD0, CHR 0xB0, CHR 0xD0, CHR 0xB2, CHR 0xD0, CHR 0xB8,
       CHR 0xD1, CHR 0x81, CHR 0xD0, CHR 0xB8, CHR 0xD0, CHR 0xBC, CHR 0xD0, CHR 0xBE,
       CHR 0xD1, CHR 0x81, CHR 0xD1, CHR 0x82, CHR 0xD1, CHR 0x8C] @ '')''] \<and>
   ''y:y'' \<notin> {''x:x''} \<and>
   map_of cycle_graph ''y:y'' = Some [mk_dep ''x'' ''x'' ''1.0''] \<and>
   print_tree_node cycle_config cycle_graph ''y:y'' 1 {''x:x''} =
     [Node 1 ''y:y'', Cyclic 2 ''x:x'']"
proof -
  have i: "indent 2 = ''    ''" by (simp add: indent_def eval_nat_numeral)
  have m: "map_of cycle_graph ''y:y'' = Some [mk_dep ''x'' ''x'' ''1.0'']"
    by (simp add: cycle_graph_def)
  have k: "dep_key (mk_dep ''x'' ''x'' ''1.0'') = ''x:x''"
    by (simp add: dep_key_def mk_dep_def)
  have d: "max_depth cycle_config = 4" by (simp add: cycle_config_def)
  show ?thesis
    using print_tree_node_terminates_marks_cycle
            [of cycle_config cycle_graph "''x:x''" 2 "{''y:y'', ''x:x''}"]
          print_tree_node_terminates_marks_cycle
            [of cycle_config cycle_graph "''y:y''" 1 "{''x:x''}" "[mk_dep ''x'' ''x'' ''1.0'']"]
    by (simp add: i m k d)
qed

text \<open>
  C6 as the specification states it fails for scenario B with \<open>max_depth = 2\<close>: when
  \<open>y:y\<close> is printed below \<open>x:x\<close>, its child \<open>x:x\<close> is on the path and is printed as a
  depth-limited line, not as the cyclic marker.
\<close>

theorem path_repeat_at_depth_boundary_counterexample:
  "print_tree_node shallow_cycle_config
       (dependency_graph (build_dependency_graph shallow_cycle_config cycle_source))
       ''x:x'' 0 {} =
     [Node 0 ''x:x'', Node 1 ''y:y'', DepthLimited 2 True ''x:x''] \<and>
   print_tree_node shallow_cycle_config
       (dependency_graph (build_dependency_graph shallow_cycle_config cycle_source))
       ''y:y'' 1 {''x:x''} =
     [Node 1 ''y:y'', DepthLimited 2 True ''x:x''] \<and>
   ''x:x'' \<in> insert ''y:y'' {''x:x''} \<and>
   render_line (DepthLimited 2 True ''x:x'') \<noteq> render_line (Cyclic 2 ''x:x'')"
  by (simp add: shallow_cycle_graph shallow_cycle_tree shallow_cycle_inner
        cyclic_suffix_def limited_suffix_def)





text \<open>
  C9, as the code has it. The diagram is the header, then the statement \<open>"key"\<close> for
  each key of the graph in the order of the graph, then the statement
  \<open>"parent" -> "child"\<close> for each stored pair in the stored order, with no pair
  dropped, each followed by a line break. When no coordinate holds a line break, these
  statements are the lines of the text: ten header lines, one declaration line for each
  key and one edge line for each stored pair.
\<close>

theorem generate_d2_diagram_lines:
  "generate_d2_diagram g =
     concat (map (\<lambda>l. l @ [CHR 0x0A])
       (d2_header_lines @
        map (\<lambda>k. [CHR 0x22] @ k @ [CHR 0x22]) (map fst g) @
        map (\<lambda>(p, c). [CHR 0x22] @ p @ [CHR 0x22] @ '' -> '' @ [CHR 0x22] @ c @ [CHR 0x22])
          (edge_pairs g))) \<and>
   ((\<forall>k \<in> set (map fst g) \<union> snd ` set (edge_pairs g). CHR 0x0A \<notin> set k) \<longrightarrow>
      text_lines (generate_d2_diagram g) =
        d2_header_lines @
        map (\<lambda>k. [CHR 0x22] @ k @ [CHR 0x22]) (map fst g) @
        map (\<lambda>(p, c). [CHR 0x22] @ p @ [CHR 0x22] @ '' -> '' @ [CHR 0x22] @ c @ [CHR 0x22])
          (edge_pairs g) \<and>
      length (text_lines (generate_d2_diagram g)) =
        length d2_header_lines + length g + sum_list (map (\<lambda>(p, ds). length ds) g)) \<and>
   (distinct (map fst g) \<longrightarrow> length g = card (dom (map_of g)))"
proof -
  let ?ls = "d2_header_lines @
        map (\<lambda>k. [CHR 0x22] @ k @ [CHR 0x22]) (map fst g) @
        map (\<lambda>(p, c). [CHR 0x22] @ p @ [CHR 0x22] @ '' -> '' @ [CHR 0x22] @ c @ [CHR 0x22])
          (edge_pairs g)"
  have s: "generate_d2_diagram g = concat (map (\<lambda>l. l @ [CHR 0x0A]) ?ls)"
    by (rule d2_statements)
  have t: "text_lines (generate_d2_diagram g) = ?ls \<and>
      length (text_lines (generate_d2_diagram g)) =
        length d2_header_lines + length g + sum_list (map (\<lambda>(p, ds). length ds) g)"
    if h: "\<forall>k \<in> set (map fst g) \<union> snd ` set (edge_pairs g). CHR 0x0A \<notin> set k"
  proof -
    have pk: "fst ` set (edge_pairs g) \<subseteq> fst ` set g"
      by (force simp: edge_pairs_def)
    have "\<forall>l \<in> set ?ls. CHR 0x0A \<notin> set l"
    proof
      fix l assume "l \<in> set ?ls"
      then consider "l \<in> set d2_header_lines"
        | k where "k \<in> set (map fst g)" "l = [CHR 0x22] @ k @ [CHR 0x22]"
        | p c where "(p, c) \<in> set (edge_pairs g)"
            "l = [CHR 0x22] @ p @ [CHR 0x22] @ '' -> '' @ [CHR 0x22] @ c @ [CHR 0x22]"
        by auto
      then show "CHR 0x0A \<notin> set l"
      proof cases
        case 1
        then show ?thesis using d2_header_lines_plain by blast
      next
        case 2
        then show ?thesis using h by auto
      next
        case 3
        then have "p \<in> set (map fst g)" "c \<in> snd ` set (edge_pairs g)"
          using pk by force+
        then have "CHR 0x0A \<notin> set p" "CHR 0x0A \<notin> set c" using h by blast+
        then show ?thesis using 3(2) by simp
      qed
    qed
    then have "text_lines (concat (map (\<lambda>l. l @ [CHR 0x0A]) ?ls)) = ?ls"
      by (rule text_lines_terminated)
    then have 1: "text_lines (generate_d2_diagram g) = ?ls" by (simp only: s)
    have "length ?ls = length d2_header_lines + length g + length (edge_pairs g)" by simp
    then show ?thesis using 1 by (simp only: edge_pairs_length)
  qed
  have c: "length g = card (dom (map_of g))" if "distinct (map fst g)"
  proof -
    from that have "card (set (map fst g)) = length (map fst g)" by (rule distinct_card)
    then show ?thesis by (simp add: dom_map_of_conv_image_fst)
  qed
  show ?thesis using s t c by blast
qed

theorem generate_d2_diagram_lines_witness:
  "CHR 0x0A \<notin> set ''a:a'' \<and> CHR 0x0A \<notin> set ''b:b'' \<and> CHR 0x0A \<notin> set ''c:c'' \<and>
   CHR 0x0A \<notin> set ''d:d'' \<and> distinct (map fst diamond_graph) \<and>
   text_lines (generate_d2_diagram diamond_graph) =
     d2_header_lines @
     [[CHR 0x22] @ ''a:a'' @ [CHR 0x22], [CHR 0x22] @ ''b:b'' @ [CHR 0x22],
      [CHR 0x22] @ ''c:c'' @ [CHR 0x22], [CHR 0x22] @ ''d:d'' @ [CHR 0x22]] @
     [[CHR 0x22] @ ''a:a'' @ [CHR 0x22] @ '' -> '' @ [CHR 0x22] @ ''b:b'' @ [CHR 0x22],
      [CHR 0x22] @ ''a:a'' @ [CHR 0x22] @ '' -> '' @ [CHR 0x22] @ ''c:c'' @ [CHR 0x22],
      [CHR 0x22] @ ''b:b'' @ [CHR 0x22] @ '' -> '' @ [CHR 0x22] @ ''d:d'' @ [CHR 0x22],
      [CHR 0x22] @ ''c:c'' @ [CHR 0x22] @ '' -> '' @ [CHR 0x22] @ ''d:d'' @ [CHR 0x22]] \<and>
   length (text_lines (generate_d2_diagram diamond_graph)) = length d2_header_lines + 4 + 4 \<and>
   card (dom (map_of diamond_graph)) = 4"
proof -
  have k: "map fst diamond_graph = [''a:a'', ''b:b'', ''c:c'', ''d:d'']"
    by (simp add: diamond_graph_def)
  have n: "sum_list (map (\<lambda>(p, ds). length ds) diamond_graph) = 4" "length diamond_graph = 4"
    by (simp_all add: diamond_graph_def)
  have h: "\<forall>k \<in> set (map fst diamond_graph) \<union> snd ` set (edge_pairs diamond_graph).
            CHR 0x0A \<notin> set k"
    by (simp add: k diamond_edge_pairs)
  have d: "distinct (map fst diamond_graph)" by (simp add: k)
  have t: "text_lines (generate_d2_diagram diamond_graph) =
        d2_header_lines @
        map (\<lambda>k. [CHR 0x22] @ k @ [CHR 0x22]) (map fst diamond_graph) @
        map (\<lambda>(p, c). [CHR 0x22] @ p @ [CHR 0x22] @ '' -> '' @ [CHR 0x22] @ c @ [CHR 0x22])
          (edge_pairs diamond_graph) \<and>
      length (text_lines (generate_d2_diagram diamond_graph)) =
        length d2_header_lines + length diamond_graph +
        sum_list (map (\<lambda>(p, ds). length ds) diamond_graph)"
    and c: "length diamond_graph = card (dom (map_of diamond_graph))"
    using generate_d2_diagram_lines [of diamond_graph] h d by blast+
  show ?thesis
    using t c d by (simp add: k n diamond_edge_pairs)
qed

text \<open>
  C9 as the specification states it fails for a root whose group id holds a line
  break: the declaration of this one key takes two lines of the text.
\<close>

theorem newline_in_key_counterexample:
  "text_lines (generate_d2_diagram
      (dependency_graph (build_dependency_graph newline_root_config unused_source))) =
     d2_header_lines @ [[CHR 0x22] @ ''a'', ''b:c'' @ [CHR 0x22]] \<and>
   length (dependency_graph (build_dependency_graph newline_root_config unused_source)) = 1 \<and>
   length (text_lines (generate_d2_diagram
      (dependency_graph (build_dependency_graph newline_root_config unused_source)))) \<noteq>
     length d2_header_lines +
     length (dependency_graph (build_dependency_graph newline_root_config unused_source)) +
     sum_list (map (\<lambda>(p, ds). length ds)
       (dependency_graph (build_dependency_graph newline_root_config unused_source)))"
  by (simp add: newline_root_graph newline_root_text)

text \<open>
  C10, at the run \<open>--package org.springframework:spring-core --test-repo --tree
  --max-depth 2\<close>. The two children of the root are printed in their stored order, and
  both with the last-sibling glyph; the two depth-limited lines below the first child
  do differ in their glyphs.
\<close>

theorem expanded_siblings_share_glyph:
  "print_tree_node spring_config
       (dependency_graph (build_dependency_graph spring_config unused_source))
       ''org.springframework:spring-core'' 0 {} =
     [Node 0 ''org.springframework:spring-core'',
      Node 1 ''commons-logging:commons-logging'',
      DepthLimited 2 False ''junit:junit'',
      DepthLimited 2 True ''org.slf4j:slf4j-api'',
      Node 1 ''org.springframework:spring-jcl'',
      DepthLimited 2 True ''org.slf4j:slf4j-api''] \<and>
   render_line (Node 1 ''commons-logging:commons-logging'') =
     ''  '' @ glyph_last @ ''commons-logging:commons-logging'' \<and>
   render_line (Node 1 ''org.springframework:spring-jcl'') =
     ''  '' @ glyph_last @ ''org.springframework:spring-jcl'' \<and>
   line_glyph (DepthLimited 2 False ''junit:junit'') = glyph_mid \<and>
   line_glyph (DepthLimited 2 True ''org.slf4j:slf4j-api'') = glyph_last \<and>
   glyph_mid \<noteq> glyph_last"
proof -
  have i: "indent 1 = ''  ''" by (simp add: indent_def)
  have g: "glyph_mid \<noteq> glyph_last" by (simp add: glyph_mid_def glyph_last_def)
  show ?thesis by (simp add: spring_tree i g)
qed

end
